theory Spec2Isabelle
  imports Main "HOL-Library.Multiset"
begin

section \<open>Cards and hands\<close>

text \<open>
  \<^verbatim>\<open>class Card\<close> holds three strings filled from the deck service's JSON answer
  (\<^verbatim>\<open>value\<close>, \<^verbatim>\<open>suit\<close>, \<^verbatim>\<open>code\<close>); \<^verbatim>\<open>class Hand\<close> holds the list of cards and the
  stored score.
\<close>

record Card =
  "value" :: string
  suit :: string
  code :: string

text \<open>\<^verbatim>\<open>Card.__init__\<close>.\<close>

definition Card_init :: "string \<Rightarrow> string \<Rightarrow> string \<Rightarrow> Card" where
  "Card_init v s c = \<lparr>value = v, suit = s, code = c\<rparr>"

record Hand =
  cards :: "Card list"
  score :: int

text \<open>\<^verbatim>\<open>Hand.__init__\<close>: no cards, score 0.\<close>

definition Hand_init :: Hand where
  "Hand_init = \<lparr>cards = [], score = 0\<rparr>"

text \<open>The dictionary \<^verbatim>\<open>score_dict\<close> of \<^verbatim>\<open>calculate_hand_score\<close>, in the source's order.\<close>

definition score_dict :: "string \<rightharpoonup> int" where
  "score_dict = map_of
     [(''2'', 2), (''3'', 3), (''4'', 4), (''5'', 5), (''6'', 6), (''7'', 7), (''8'', 8),
      (''9'', 9), (''10'', 10), (''JACK'', 10), (''QUEEN'', 10), (''KING'', 10)]"

text \<open>
  The \<^verbatim>\<open>for card in self.cards\<close> loop: \<open>new_score\<close> grows by the dictionary entry when
  the card's value is a key, and \<open>count\<close> grows when the value is \<^verbatim>\<open>'ACE'\<close>. The two
  \<^verbatim>\<open>if\<close>s of the body are kept as two steps.
\<close>

fun count_cards :: "Card list \<Rightarrow> int \<Rightarrow> nat \<Rightarrow> int \<times> nat" where
  "count_cards [] new_score cnt = (new_score, cnt)"
| "count_cards (c # rest) new_score cnt =
     (let new_score = (case score_dict (value c) of
                         Some v \<Rightarrow> new_score + v
                       | None \<Rightarrow> new_score);
          cnt = (if value c = ''ACE'' then cnt + 1 else cnt)
      in count_cards rest new_score cnt)"

text \<open>The \<^verbatim>\<open>while count\<close> loop: one Ace per round, valued against the running total.\<close>

fun value_aces :: "int \<Rightarrow> nat \<Rightarrow> int" where
  "value_aces new_score 0 = new_score"
| "value_aces new_score (Suc cnt) =
     (if new_score + 11 > 21 then value_aces (new_score + 1) cnt
      else value_aces (new_score + 11) cnt)"

definition calculate_hand_score :: "Hand \<Rightarrow> Hand" where
  "calculate_hand_score h =
     (case count_cards (cards h) 0 0 of
        (new_score, cnt) \<Rightarrow>
          h\<lparr>score := (if cnt \<noteq> 0 then value_aces new_score cnt else new_score)\<rparr>)"

definition add_card :: "Card \<Rightarrow> Hand \<Rightarrow> Hand" where
  "add_card c h = calculate_hand_score (h\<lparr>cards := cards h @ [c]\<rparr>)"

section \<open>The scoring rule as the specification words it\<close>

text \<open>
  The numeric ranks \<^verbatim>\<open>"2"\<close> .. \<^verbatim>\<open>"10"\<close> count at the number their digits denote, the
  face ranks at 10. \<open>decimal\<close> reads a string of digits.
\<close>

definition digit :: "char \<Rightarrow> int" where
  "digit c = int (of_char c) - 48"

definition decimal :: "string \<Rightarrow> int" where
  "decimal s = foldl (\<lambda>n c. 10 * n + digit c) 0 s"

definition numeric_ranks :: "string list" where
  "numeric_ranks = map (\<lambda>d. [d]) ''23456789'' @ [''10'']"

definition face_ranks :: "string list" where
  "face_ranks = [''JACK'', ''QUEEN'', ''KING'']"

definition is_ace :: "Card \<Rightarrow> bool" where
  "is_ace c = (value c = ''ACE'')"

definition is_pip_or_face :: "Card \<Rightarrow> bool" where
  "is_pip_or_face c = (value c \<in> set numeric_ranks \<or> value c \<in> set face_ranks)"

definition points :: "Card \<Rightarrow> int" where
  "points c = (if value c \<in> set face_ranks then 10 else decimal (value c))"

text \<open>Step 2 and 3 of the rule: the base over the non-Ace cards, and the number of Aces.\<close>

definition base :: "Card list \<Rightarrow> int" where
  "base cs = sum_list (map points (filter is_pip_or_face cs))"

definition aceCount :: "Card list \<Rightarrow> nat" where
  "aceCount cs = length (filter is_ace cs)"

text \<open>Step 4: one Ace, valued against the running total.\<close>

definition ace_contribution :: "int \<Rightarrow> int" where
  "ace_contribution running = (if running + 11 \<le> 21 then 11 else 1)"

definition greedy_aces :: "int \<Rightarrow> nat \<Rightarrow> int" where
  "greedy_aces b n = foldl (\<lambda>running _. running + ace_contribution running) b (replicate n ())"

definition rule_score :: "Card list \<Rightarrow> int" where
  "rule_score cs = greedy_aces (base cs) (aceCount cs)"

text \<open>The value of a rank alone, 0 for a string that is no rank with a value.\<close>

definition rank_points :: "string \<Rightarrow> int" where
  "rank_points r =
     (if r \<in> set numeric_ranks \<or> r \<in> set face_ranks
      then (if r \<in> set face_ranks then 10 else decimal r) else 0)"

section \<open>The deck and the view\<close>

text \<open>
  The deck lives behind a network service. \<open>remaining\<close> is the sequence of cards the
  service hands out on the successive calls of \<^verbatim>\<open>draw\<close>, in that order, whatever
  shuffling produced it; when the service gives no further card (its deck is used up and
  \<^verbatim>\<open>card_dict['cards'][0]\<close> fails on the empty list, or the call itself fails),
  \<^verbatim>\<open>draw\<close> raises. The calls that shuffle are taken to succeed.
  Standard input is the list of lines still to be read; \<^verbatim>\<open>input\<close> raises
  \<^verbatim>\<open>EOFError\<close> at its end. What the view prints is kept in \<open>output\<close>, oldest first.
\<close>

datatype error = SourceUnavailable | EOFError

record Deck =
  is_shuffled :: bool
  remaining :: "Card list"

text \<open>
  The dictionary \<^verbatim>\<open>{"dealer": ..., "player": ...}\<close> passed to the view: the dealer's
  hand first, the player's second. The hands are passed by reference, so each method of
  the view returns them with its result.
\<close>

type_synonym state = "Hand \<times> Hand"

datatype event = Display state bool | Print string

record BlackjackView =
  inputs :: "string list"
  "output" :: "event list"

definition shuffle :: "Deck \<Rightarrow> Deck" where
  "shuffle d = d\<lparr>is_shuffled := True\<rparr>"

definition draw :: "Deck \<Rightarrow> error + (Card \<times> Deck)" where
  "draw d = (case remaining d of
               [] \<Rightarrow> Inl SourceUnavailable
             | c # rest \<Rightarrow> Inr (c, d\<lparr>remaining := rest\<rparr>))"

text \<open>
  A line of input is kept as its UTF-8 text. \<^verbatim>\<open>str.upper\<close> moves the ASCII letters
  a .. z to A .. Z, and it moves the long s (U+017F, in UTF-8 the two bytes C5 BF) to S:
  that is the one character outside ASCII whose upper case is an ASCII letter. Python
  moves other letters outside ASCII too, none of them to text that is "H" or "S"; they
  are left as they are here, which changes neither the test of \<^verbatim>\<open>ask_next_move\<close> nor
  the value it returns.
\<close>

definition upper_char :: "char \<Rightarrow> char" where
  "upper_char c =
     (case map_of (zip ''abcdefghijklmnopqrstuvwxyz'' ''ABCDEFGHIJKLMNOPQRSTUVWXYZ'') c of
        Some u \<Rightarrow> u
      | None \<Rightarrow> c)"

definition long_s :: string where
  "long_s = [CHR 0xC5, CHR 0xBF]"

fun upper :: "string \<Rightarrow> string" where
  "upper [] = []"
| "upper [c] = [upper_char c]"
| "upper (c # d # cs) =
     (if [c, d] = long_s then CHR ''S'' # upper cs else upper_char c # upper (d # cs))"

definition print :: "string \<Rightarrow> BlackjackView \<Rightarrow> BlackjackView" where
  "print s v = v\<lparr>output := output v @ [Print s]\<rparr>"

text \<open>
  \<^verbatim>\<open>display_state\<close> prints one block of text computed from the two hands and the flag
  \<^verbatim>\<open>final\<close>; the block is kept as one event.
\<close>

definition display_state :: "state \<Rightarrow> bool \<Rightarrow> BlackjackView \<Rightarrow> state \<times> BlackjackView" where
  "display_state st final v = (st, v\<lparr>output := output v @ [Display st final]\<rparr>)"

definition player_lost :: "state \<Rightarrow> BlackjackView \<Rightarrow> state \<times> BlackjackView" where
  "player_lost st v =
     (case display_state st True v of (st, v) \<Rightarrow> (st, print ''You lost'' v))"

definition player_won :: "state \<Rightarrow> BlackjackView \<Rightarrow> state \<times> BlackjackView" where
  "player_won st v =
     (case display_state st True v of (st, v) \<Rightarrow> (st, print ''You won'' v))"

text \<open>
  The \<^verbatim>\<open>while True\<close> loop of \<^verbatim>\<open>ask_next_move\<close>: \<^verbatim>\<open>input\<close> writes the prompt and reads
  one line.
\<close>

definition prompt :: string where
  "prompt = ''Choose your next move hit(H) or stand(S) > ''"

fun ask_loop :: "state \<Rightarrow> string list \<Rightarrow> event list
                 \<Rightarrow> error + (string \<times> state \<times> BlackjackView)" where
  "ask_loop st [] out = Inl EOFError"
| "ask_loop st (action # rest) out =
     (if upper action \<in> set [''H'', ''S'']
      then Inr (upper action, st, \<lparr>inputs = rest, output = out @ [Print prompt]\<rparr>)
      else ask_loop st rest (out @ [Print prompt, Print ''Invalid command!'']))"

definition ask_next_move :: "state \<Rightarrow> BlackjackView \<Rightarrow> error + (string \<times> state \<times> BlackjackView)" where
  "ask_next_move st v =
     (case display_state st False v of (st, v) \<Rightarrow> ask_loop st (inputs v) (output v))"

section \<open>The controller\<close>

record BlackjackController =
  deck :: Deck
  view :: BlackjackView
  player :: Hand
  dealer :: Hand

definition check_shuffle :: "Deck \<Rightarrow> Deck" where
  "check_shuffle d = (if \<not> is_shuffled d then shuffle d else d)"

text \<open>\<^verbatim>\<open>self.player.add_card(self.deck.draw())\<close> and the same for the dealer.\<close>

definition player_draw :: "BlackjackController \<Rightarrow> error + BlackjackController" where
  "player_draw g = (case draw (deck g) of
                      Inl e \<Rightarrow> Inl e
                    | Inr (c, d) \<Rightarrow> Inr (g\<lparr>deck := d, player := add_card c (player g)\<rparr>))"

definition dealer_draw :: "BlackjackController \<Rightarrow> error + BlackjackController" where
  "dealer_draw g = (case draw (deck g) of
                      Inl e \<Rightarrow> Inl e
                    | Inr (c, d) \<Rightarrow> Inr (g\<lparr>deck := d, dealer := add_card c (dealer g)\<rparr>))"

text \<open>The calls of the view, with the dictionary built from the controller's two hands.\<close>

definition tell_lost :: "BlackjackController \<Rightarrow> BlackjackController" where
  "tell_lost g = (case player_lost (dealer g, player g) (view g) of
                    ((d, p), v) \<Rightarrow> g\<lparr>view := v, player := p, dealer := d\<rparr>)"

definition tell_won :: "BlackjackController \<Rightarrow> BlackjackController" where
  "tell_won g = (case player_won (dealer g, player g) (view g) of
                   ((d, p), v) \<Rightarrow> g\<lparr>view := v, player := p, dealer := d\<rparr>)"

definition ask :: "BlackjackController \<Rightarrow> error + (string \<times> BlackjackController)" where
  "ask g = (case ask_next_move (dealer g, player g) (view g) of
              Inl e \<Rightarrow> Inl e
            | Inr (cmd, (d, p), v) \<Rightarrow> Inr (cmd, g\<lparr>view := v, player := p, dealer := d\<rparr>))"

text \<open>\<^verbatim>\<open>for i in range(4)\<close> of \<^verbatim>\<open>draw_first_cards\<close>.\<close>

fun deal_loop :: "nat list \<Rightarrow> BlackjackController \<Rightarrow> error + BlackjackController" where
  "deal_loop [] g = Inr g"
| "deal_loop (i # rest) g =
     (case (if i mod 2 = 0 then player_draw g else dealer_draw g) of
        Inl e \<Rightarrow> Inl e
      | Inr g \<Rightarrow> deal_loop rest g)"

definition draw_first_cards :: "BlackjackController \<Rightarrow> error + (int \<times> BlackjackController)" where
  "draw_first_cards g = (case deal_loop [0..<4] g of
                           Inl e \<Rightarrow> Inl e
                         | Inr g \<Rightarrow> Inr (score (player g), g))"

text \<open>
  \<^verbatim>\<open>dealers_turn\<close>. Each round of the loop draws a card, so the loop ends at the latest
  when the deck has nothing left to give.
\<close>

function dealers_turn :: "BlackjackController \<Rightarrow> error + BlackjackController" where
  "dealers_turn g =
     (if score (dealer g) \<le> score (player g)
      then (case dealer_draw g of
              Inl e \<Rightarrow> Inl e
            | Inr g' \<Rightarrow> if score (dealer g') = 21 then Inr (tell_lost g')
                        else dealers_turn g')
      else if score (dealer g) < 21 then Inr (tell_lost g)
      else if score (dealer g) > 22 then Inr (tell_won g)
      else Inr g)"
  by pat_completeness auto
termination
  by (relation "measure (\<lambda>g. length (remaining (deck g)))")
    (auto simp: dealer_draw_def draw_def split: list.splits)

text \<open>
  The \<^verbatim>\<open>if cmd == 'H'\<close> / \<^verbatim>\<open>elif cmd == 'S'\<close> statement of \<^verbatim>\<open>players_turn\<close>: it
  either returns from the function (\<open>Inl\<close>, with the returned value) or falls through to
  the two checks after it (\<open>Inr\<close>).
\<close>

definition move :: "string \<Rightarrow> BlackjackController
                    \<Rightarrow> error + ((bool option \<times> BlackjackController) + BlackjackController)" where
  "move cmd g =
     (if cmd = ''H''
      then (case player_draw g of
              Inl e \<Rightarrow> Inl e
            | Inr g' \<Rightarrow> if score (player g') > 21 then Inr (Inl (Some True, tell_lost g'))
                        else Inr (Inr g'))
      else if cmd = ''S'' then Inr (Inl (None, g))
      else Inr (Inr g))"

text \<open>
  \<^verbatim>\<open>players_turn\<close>: the value returned is \<^verbatim>\<open>True\<close>, \<^verbatim>\<open>False\<close> or \<^verbatim>\<open>None\<close>. Each round
  of the \<^verbatim>\<open>while True\<close> loop reads at least one line, so the loop ends at the latest with
  \<^verbatim>\<open>EOFError\<close> at the end of the input.
\<close>

function players_turn :: "BlackjackController \<Rightarrow> error + (bool option \<times> BlackjackController)" where
  "players_turn g =
     (case ask g of
        Inl e \<Rightarrow> Inl e
      | Inr (cmd, g1) \<Rightarrow>
          (case move cmd g1 of
             Inl e \<Rightarrow> Inl e
           | Inr (Inl ret) \<Rightarrow> Inr ret
           | Inr (Inr g2) \<Rightarrow>
               if score (player g2) = 21 then Inr (Some False, tell_won g2)
               else if score (player g2) > 22 then Inr (Some False, tell_lost g2)
               else players_turn g2))"
  by pat_completeness auto
termination
proof (relation "measure (\<lambda>g. length (inputs (view g)))")
  show "wf (measure (\<lambda>g. length (inputs (view g))))"
    by simp
next
  fix g :: BlackjackController and x cmd g1 y g2
  assume a: "ask g = Inr x" "(cmd, g1) = x" and m: "move cmd g1 = Inr y" "y = Inr g2"
  have loop: "ask_loop st ins out = Inr (c, st', v) \<Longrightarrow> length (inputs v) < length ins"
    for st ins out c st' v
    by (induction ins arbitrary: out) (auto split: if_splits dest: less_SucI)
  have "length (inputs (view g1)) < length (inputs (view g))"
    using a loop
    by (auto simp: ask_def ask_next_move_def display_state_def split: sum.splits prod.splits)
  moreover have "view g2 = view g1"
    using m by (auto simp: move_def player_draw_def split: if_splits sum.splits prod.splits)
  ultimately show "(g2, g) \<in> measure (\<lambda>g. length (inputs (view g)))"
    by simp
qed

declare dealers_turn.simps [simp del] players_turn.simps [simp del]

text \<open>\<^verbatim>\<open>BlackjackController.__init__\<close>: one whole game, from the deck and the view given.\<close>

definition BlackjackController_init :: "Deck \<Rightarrow> BlackjackView \<Rightarrow> error + BlackjackController" where
  "BlackjackController_init d v =
     (case draw_first_cards
             \<lparr>deck = check_shuffle d, view = v, player = Hand_init, dealer = Hand_init\<rparr> of
        Inl e \<Rightarrow> Inl e
      | Inr (sc, g) \<Rightarrow>
          if sc = 21 then Inr (tell_won g)
          else (case players_turn g of
                  Inl e \<Rightarrow> Inl e
                | Inr (lost, g') \<Rightarrow>
                    if lost = None
                    then (if score (dealer g') = 21 then Inr (tell_lost g')
                          else dealers_turn g')
                    else Inr g'))"

section \<open>Notions used in the statements\<close>

text \<open>
  An entry of the input that is "H" or "S" up to the case of its letter. Unicode knows
  three forms of the letter S: the capital, the small and the long s.
\<close>

definition valid_move :: "string \<Rightarrow> bool" where
  "valid_move a = (a \<in> set [''H'', ''h'', ''S'', ''s'', long_s])"

text \<open>What \<^verbatim>\<open>ask_next_move\<close> prints for the entries it refuses: the prompt and the
  complaint, once for each.\<close>

definition reprompts :: "string list \<Rightarrow> event list" where
  "reprompts bad = concat (map (\<lambda>b. [Print prompt, Print ''Invalid command!'']) bad)"

text \<open>A hand after the cards \<open>cs\<close> were added to it one by one.\<close>

definition deal_to :: "Hand \<Rightarrow> Card list \<Rightarrow> Hand" where
  "deal_to h cs = foldl (\<lambda>h c. add_card c h) h cs"

text \<open>The controller after the dealer drew the cards \<open>drawn\<close> from the deck.\<close>

definition dealer_drew :: "BlackjackController \<Rightarrow> Card list \<Rightarrow> BlackjackController" where
  "dealer_drew g drawn =
     g\<lparr>deck := (deck g)\<lparr>remaining := drop (length drawn) (remaining (deck g))\<rparr>,
       dealer := deal_to (dealer g) drawn\<rparr>"

text \<open>The controller after the player drew the cards \<open>drawn\<close> from the deck.\<close>

definition player_drew :: "BlackjackController \<Rightarrow> Card list \<Rightarrow> BlackjackController" where
  "player_drew g drawn =
     g\<lparr>deck := (deck g)\<lparr>remaining := drop (length drawn) (remaining (deck g))\<rparr>,
       player := deal_to (player g) drawn\<rparr>"

text \<open>How \<^verbatim>\<open>dealers_turn\<close> ends on the state \<open>g\<close> it stops in; \<open>drew\<close> tells whether
  the loop drew a card.\<close>

definition dealer_done :: "bool \<Rightarrow> BlackjackController \<Rightarrow> BlackjackController" where
  "dealer_done drew g =
     (if drew \<and> score (dealer g) = 21 then tell_lost g
      else if score (dealer g) < 21 then tell_lost g
      else if score (dealer g) > 22 then tell_won g
      else g)"

text \<open>The controller right after the four cards \<open>c1\<close> .. \<open>c4\<close> were dealt from the deck
  \<open>d\<close>, \<open>rest\<close> being what the deck still holds.\<close>

definition dealt :: "Deck \<Rightarrow> BlackjackView \<Rightarrow> Card \<Rightarrow> Card \<Rightarrow> Card \<Rightarrow> Card \<Rightarrow> Card list
                     \<Rightarrow> BlackjackController" where
  "dealt d v c1 c2 c3 c4 rest =
     \<lparr>deck = (check_shuffle d)\<lparr>remaining := rest\<rparr>, view = v,
      player = add_card c3 (add_card c1 Hand_init),
      dealer = add_card c4 (add_card c2 Hand_init)\<rparr>"

text \<open>The controller after \<^verbatim>\<open>ask_next_move\<close> refused the entries \<open>bad\<close>, took the next one
  and left \<open>rest\<close> unread.\<close>

definition asked :: "BlackjackController \<Rightarrow> string list \<Rightarrow> string list \<Rightarrow> BlackjackController" where
  "asked g bad rest =
     g\<lparr>view := \<lparr>inputs = rest,
                 output = output (view g) @ [Display (dealer g, player g) False]
                          @ reprompts bad @ [Print prompt]\<rparr>\<rparr>"

text \<open>A hand whose stored score is the rule's score of its cards.\<close>

definition fresh :: "Hand \<Rightarrow> bool" where
  "fresh h = (score h = rule_score (cards h))"

text \<open>An event of the view that shows fresh hands only.\<close>

fun shown_fresh :: "event \<Rightarrow> bool" where
  "shown_fresh (Display st final) = (fresh (fst st) \<and> fresh (snd st))"
| "shown_fresh (Print s) = True"

text \<open>Both hands are fresh, and so was every hand shown so far.\<close>

definition all_fresh :: "BlackjackController \<Rightarrow> bool" where
  "all_fresh g = (fresh (player g) \<and> fresh (dealer g) \<and> list_all shown_fresh (output (view g)))"

text \<open>The outcomes the view has reported: its "You won" and "You lost" lines.\<close>

definition reports :: "BlackjackView \<Rightarrow> event list" where
  "reports v = filter (\<lambda>e. e = Print ''You won'' \<or> e = Print ''You lost'') (output v)"

text \<open>Cards, hands, decks, typed input and whole tables for the examples.\<close>

definition spade :: "string \<Rightarrow> Card" where
  "spade r = Card_init r ''SPADES'' (r @ ''S'')"

definition hand_of :: "string list \<Rightarrow> Hand" where
  "hand_of rs = deal_to Hand_init (map spade rs)"

definition deck_of :: "string list \<Rightarrow> Deck" where
  "deck_of rs = \<lparr>is_shuffled = True, remaining = map spade rs\<rparr>"

definition typing :: "string list \<Rightarrow> BlackjackView" where
  "typing ins = \<lparr>inputs = ins, output = []\<rparr>"

definition table :: "string list \<Rightarrow> string list \<Rightarrow> string list \<Rightarrow> string list \<Rightarrow> BlackjackController" where
  "table ps ds rs ins = \<lparr>deck = deck_of rs, view = typing ins, player = hand_of ps, dealer = hand_of ds\<rparr>"





section \<open>Scoring: the code against the rule\<close>

lemma score_dict_points:
  "score_dict r = (if r \<in> set numeric_ranks \<or> r \<in> set face_ranks
                   then Some (if r \<in> set face_ranks then 10 else decimal r) else None)"
  by (simp add: score_dict_def numeric_ranks_def face_ranks_def decimal_def digit_def)

lemma count_cards_acc:
  "count_cards cs s n = (s + base cs, n + aceCount cs)"
proof (induction cs arbitrary: s n)
  case Nil
  show ?case by (simp add: base_def aceCount_def)
next
  case (Cons c cs)
  show ?case
    by (simp add: Cons.IH score_dict_points base_def aceCount_def is_ace_def
        is_pip_or_face_def points_def Let_def)
qed

lemma value_aces_greedy: "value_aces s n = greedy_aces s n"
proof (induction n arbitrary: s)
  case 0
  show ?case by (simp add: greedy_aces_def)
next
  case (Suc n)
  show ?case
    using Suc.IH [of "s + 1"] Suc.IH [of "s + 11"]
    by (simp add: greedy_aces_def ace_contribution_def)
qed

lemma score_calculate: "score (calculate_hand_score h) = rule_score (cards h)"
  by (simp add: calculate_hand_score_def count_cards_acc value_aces_greedy rule_score_def
      greedy_aces_def)

lemma cards_calculate: "cards (calculate_hand_score h) = cards h"
  by (simp add: calculate_hand_score_def split: prod.splits)

lemma cards_add_card: "cards (add_card c h) = cards h @ [c]"
  by (simp add: add_card_def cards_calculate)

lemma score_add_card: "score (add_card c h) = rule_score (cards h @ [c])"
  by (simp add: add_card_def score_calculate)

lemma greedy_aces_Suc: "greedy_aces b (Suc n) = greedy_aces (b + ace_contribution b) n"
  by (simp add: greedy_aces_def)

text \<open>
  Claim C1. For every hand, \<open>calculate_hand_score\<close> stores as score the sum of the values
  of the non-Ace cards (ranks "2" .. "10" at their number, "JACK", "QUEEN", "KING" at 10)
  plus one contribution per Ace, taken one Ace at a time against the running total: 11 if
  the running total plus 11 is at most 21, else 1. The cards are left as they are. A hand
  of exactly two Aces scores 12, whatever the suits and the score stored before.
\<close>

theorem calculate_hand_score_greedy:
  "score (calculate_hand_score h) = greedy_aces (base (cards h)) (aceCount (cards h))
   \<and> cards (calculate_hand_score h) = cards h
   \<and> greedy_aces b 0 = b
   \<and> greedy_aces b (Suc n) = greedy_aces (b + (if b + 11 \<le> 21 then 11 else 1)) n
   \<and> score (calculate_hand_score
        \<lparr>cards = [\<lparr>value = ''ACE'', suit = s1, code = c1\<rparr>,
                  \<lparr>value = ''ACE'', suit = s2, code = c2\<rparr>], score = old\<rparr>) = 12"
proof -
  have two: "rule_score [\<lparr>value = ''ACE'', suit = s1, code = c1\<rparr>,
                         \<lparr>value = ''ACE'', suit = s2, code = c2\<rparr>] = 12"
    by (simp add: rule_score_def base_def aceCount_def is_ace_def is_pip_or_face_def
        numeric_ranks_def face_ranks_def greedy_aces_def ace_contribution_def
        numeral_2_eq_2)
  have step: "greedy_aces b (Suc n) = greedy_aces (b + (if b + 11 \<le> 21 then 11 else 1)) n"
    using greedy_aces_Suc [of b n] by (simp only: ace_contribution_def)
  have zero: "greedy_aces b 0 = b"
    by (simp add: greedy_aces_def)
  show ?thesis
    using two step zero
    by (simp only: score_calculate cards_calculate rule_score_def Hand.simps simp_thms)
qed

section \<open>The score does not depend on the order of the cards\<close>

lemma base_mset: "base cs = sum_mset (image_mset rank_points (mset (map value cs)))"
  by (induction cs) (simp_all add: base_def rank_points_def is_pip_or_face_def points_def)

lemma aceCount_mset: "aceCount cs = count (mset (map value cs)) ''ACE''"
  by (induction cs) (simp_all add: aceCount_def is_ace_def)

lemma rule_score_mset:
  assumes "mset (map value cs) = mset (map value cs')"
  shows "rule_score cs = rule_score cs'"
  using assms by (simp add: rule_score_def base_mset aceCount_mset)

text \<open>
  Claim C10. The score computed for a hand depends only on the multiset of the values of
  its cards: two hands whose cards carry the same values, in any order and with any
  suits, get the same score; in particular a permutation of the cards keeps the score.
\<close>

theorem calculate_hand_score_order:
  assumes "mset (map value (cards h)) = mset (map value (cards h'))"
  shows "score (calculate_hand_score h) = score (calculate_hand_score h')"
  using rule_score_mset [OF assms] by (simp add: score_calculate)

theorem calculate_hand_score_order_witness:
  "mset (map value (cards \<lparr>cards = [\<lparr>value = ''ACE'', suit = ''SPADES'', code = ''AS''\<rparr>,
                                    \<lparr>value = ''5'', suit = ''HEARTS'', code = ''5H''\<rparr>,
                                    \<lparr>value = ''KING'', suit = ''CLUBS'', code = ''KC''\<rparr>],
                           score = 0\<rparr>))
   = mset (map value (cards \<lparr>cards = [\<lparr>value = ''KING'', suit = ''DIAMONDS'', code = ''KD''\<rparr>,
                                      \<lparr>value = ''ACE'', suit = ''HEARTS'', code = ''AH''\<rparr>,
                                      \<lparr>value = ''5'', suit = ''CLUBS'', code = ''5C''\<rparr>],
                             score = 7\<rparr>))
   \<and> score (calculate_hand_score
        \<lparr>cards = [\<lparr>value = ''ACE'', suit = ''SPADES'', code = ''AS''\<rparr>,
                  \<lparr>value = ''5'', suit = ''HEARTS'', code = ''5H''\<rparr>,
                  \<lparr>value = ''KING'', suit = ''CLUBS'', code = ''KC''\<rparr>], score = 0\<rparr>)
     = score (calculate_hand_score
        \<lparr>cards = [\<lparr>value = ''KING'', suit = ''DIAMONDS'', code = ''KD''\<rparr>,
                  \<lparr>value = ''ACE'', suit = ''HEARTS'', code = ''AH''\<rparr>,
                  \<lparr>value = ''5'', suit = ''CLUBS'', code = ''5C''\<rparr>], score = 7\<rparr>)
   \<and> score (calculate_hand_score
        \<lparr>cards = [\<lparr>value = ''KING'', suit = ''DIAMONDS'', code = ''KD''\<rparr>,
                  \<lparr>value = ''ACE'', suit = ''HEARTS'', code = ''AH''\<rparr>,
                  \<lparr>value = ''5'', suit = ''CLUBS'', code = ''5C''\<rparr>], score = 7\<rparr>) = 16"
proof -
  have m: "mset (map value (cards \<lparr>cards = [\<lparr>value = ''ACE'', suit = ''SPADES'', code = ''AS''\<rparr>,
                                    \<lparr>value = ''5'', suit = ''HEARTS'', code = ''5H''\<rparr>,
                                    \<lparr>value = ''KING'', suit = ''CLUBS'', code = ''KC''\<rparr>],
                           score = 0\<rparr>))
   = mset (map value (cards \<lparr>cards = [\<lparr>value = ''KING'', suit = ''DIAMONDS'', code = ''KD''\<rparr>,
                                      \<lparr>value = ''ACE'', suit = ''HEARTS'', code = ''AH''\<rparr>,
                                      \<lparr>value = ''5'', suit = ''CLUBS'', code = ''5C''\<rparr>],
                             score = 7\<rparr>))"
    by simp
  have v: "score (calculate_hand_score
        \<lparr>cards = [\<lparr>value = ''KING'', suit = ''DIAMONDS'', code = ''KD''\<rparr>,
                  \<lparr>value = ''ACE'', suit = ''HEARTS'', code = ''AH''\<rparr>,
                  \<lparr>value = ''5'', suit = ''CLUBS'', code = ''5C''\<rparr>], score = 7\<rparr>) = 16"
    by (simp add: calculate_hand_score_def score_dict_def)
  show ?thesis
    using calculate_hand_score_order [OF m] m v by simp
qed

section \<open>The view asks for a move\<close>

lemma upper_char_H: "upper_char c = CHR ''H'' \<longleftrightarrow> c = CHR ''H'' \<or> c = CHR ''h''"
  by (simp add: upper_char_def)

lemma upper_char_S: "upper_char c = CHR ''S'' \<longleftrightarrow> c = CHR ''S'' \<or> c = CHR ''s''"
  by (simp add: upper_char_def)

lemma upper_Nil: "upper a = [] \<longleftrightarrow> a = []"
  by (induction a rule: upper.induct) auto

lemma upper_valid: "upper a \<in> set [''H'', ''S''] \<longleftrightarrow> valid_move a"
proof (cases a rule: upper.cases)
  case 1
  then show ?thesis by (simp add: valid_move_def long_s_def)
next
  case (2 c)
  then show ?thesis
    by (auto simp: valid_move_def long_s_def upper_char_H upper_char_S)
next
  case (3 c d cs)
  have "upper (d # cs) \<noteq> []"
    by (simp add: upper_Nil)
  then show ?thesis
    using 3 by (auto simp: valid_move_def long_s_def upper_Nil)
qed

lemma ask_loop_first_valid:
  assumes "\<forall>b \<in> set bad. \<not> valid_move b" and "valid_move a"
  shows "ask_loop st (bad @ a # rest) out =
         Inr (upper a, st, \<lparr>inputs = rest, output = out @ reprompts bad @ [Print prompt]\<rparr>)"
  using assms
proof (induction bad arbitrary: out)
  case Nil
  then show ?case
    using upper_valid [of a] by (simp add: reprompts_def)
next
  case (Cons b bad)
  have "\<not> upper b \<in> set [''H'', ''S'']"
    using Cons.prems upper_valid [of b] by simp
  then show ?case
    using Cons by (simp add: reprompts_def)
qed

lemma ask_loop_no_valid:
  assumes "\<forall>b \<in> set bad. \<not> valid_move b"
  shows "ask_loop st bad out = Inl EOFError"
  using assms
proof (induction bad arbitrary: out)
  case Nil
  show ?case by simp
next
  case (Cons b bad)
  have "\<not> upper b \<in> set [''H'', ''S'']"
    using Cons.prems upper_valid [of b] by simp
  then show ?case
    using Cons by simp
qed

lemma ask_next_move_first_valid:
  assumes "inputs v = bad @ a # rest" and "\<forall>b \<in> set bad. \<not> valid_move b" and "valid_move a"
  shows "ask_next_move st v =
           Inr (upper a, st,
                \<lparr>inputs = rest,
                 output = output v @ [Display st False] @ reprompts bad @ [Print prompt]\<rparr>)
         \<and> upper a \<in> set [''H'', ''S'']
         \<and> length (filter (\<lambda>e. e = Print prompt) (reprompts bad @ [Print prompt])) = length bad + 1
         \<and> length (filter (\<lambda>e. e = Print ''Invalid command!'') (reprompts bad @ [Print prompt])) = length bad"
proof -
  have 1: "ask_next_move st v =
           Inr (upper a, st,
                \<lparr>inputs = rest,
                 output = output v @ [Display st False] @ reprompts bad @ [Print prompt]\<rparr>)"
    using ask_loop_first_valid [OF assms(2,3)] assms(1)
    by (simp add: ask_next_move_def display_state_def)
  have 2: "upper a \<in> set [''H'', ''S'']"
    using assms(3) upper_valid [of a] by simp
  have 3: "length (filter (\<lambda>e. e = Print prompt) (reprompts bad)) = length bad"
    by (induction bad) (simp_all add: reprompts_def prompt_def)
  have 4: "length (filter (\<lambda>e. e = Print ''Invalid command!'') (reprompts bad)) = length bad"
    by (induction bad) (simp_all add: reprompts_def prompt_def)
  show ?thesis
    using 1 2 3 4 by (simp add: prompt_def)
qed

section \<open>The dealer's turn\<close>

lemma tell_lost_eq:
  "tell_lost g = g\<lparr>view := (view g)\<lparr>output := output (view g) @ [Display (dealer g, player g) True, Print ''You lost'']\<rparr>\<rparr>"
  by (simp add: tell_lost_def player_lost_def display_state_def print_def)

lemma tell_won_eq:
  "tell_won g = g\<lparr>view := (view g)\<lparr>output := output (view g) @ [Display (dealer g, player g) True, Print ''You won'']\<rparr>\<rparr>"
  by (simp add: tell_won_def player_won_def display_state_def print_def)

lemma dealer_draw_Cons:
  "remaining (deck g) = c # rest \<Longrightarrow> dealer_draw g = Inr (dealer_drew g [c])"
  by (simp add: dealer_draw_def draw_def dealer_drew_def deal_to_def)

lemma dealer_draw_Nil:
  "remaining (deck g) = [] \<Longrightarrow> dealer_draw g = Inl SourceUnavailable"
  by (simp add: dealer_draw_def draw_def)


lemma player_draw_Nil:
  "remaining (deck g) = [] \<Longrightarrow> player_draw g = Inl SourceUnavailable"
  by (simp add: player_draw_def draw_def)

lemma dealer_drew_Nil: "dealer_drew g [] = g"
  by (simp add: dealer_drew_def deal_to_def)

lemma dealer_drew_Cons:
  "remaining (deck g) = c # rest \<Longrightarrow> dealer_drew (dealer_drew g [c]) cs = dealer_drew g (c # cs)"
  by (simp add: dealer_drew_def deal_to_def)

lemma dealers_turn_trace:
  assumes "dealers_turn g = Inr g'"
  shows "\<exists>drawn rest. remaining (deck g) = drawn @ rest
          \<and> (\<forall>k < length drawn. score (deal_to (dealer g) (take k drawn)) \<le> score (player g))
          \<and> (\<forall>k. 0 < k \<and> k < length drawn \<longrightarrow> score (deal_to (dealer g) (take k drawn)) \<noteq> 21)
          \<and> (drawn \<noteq> [] \<and> score (deal_to (dealer g) drawn) = 21
               \<or> score (deal_to (dealer g) drawn) > score (player g))
          \<and> g' = dealer_done (drawn \<noteq> []) (dealer_drew g drawn)"
  using assms
proof (induction g rule: dealers_turn.induct)
  case (1 g)
  show ?case
  proof (cases "score (dealer g) \<le> score (player g)")
    case False
    then have "g' = dealer_done False g"
      using "1.prems"
      by (subst (asm) dealers_turn.simps) (simp add: dealer_done_def split: if_splits)
    then show ?thesis
      using False
      by - (rule exI [of _ "[]"], rule exI [of _ "remaining (deck g)"],
          simp add: deal_to_def dealer_drew_Nil)
  next
    case le: True
    show ?thesis
    proof (cases "remaining (deck g)")
      case Nil
      then show ?thesis
        using "1.prems" le by (subst (asm) dealers_turn.simps) (simp add: dealer_draw_Nil)
    next
      case (Cons c rest)
      let ?g1 = "dealer_drew g [c]"
      have d: "dealer_draw g = Inr ?g1"
        using Cons by (rule dealer_draw_Cons)
      have s1: "dealer ?g1 = add_card c (dealer g)" "player ?g1 = player g"
        "remaining (deck ?g1) = rest"
        using Cons by (simp_all add: dealer_drew_def deal_to_def)
      show ?thesis
      proof (cases "score (dealer ?g1) = 21")
        case True
        then have "g' = dealer_done True ?g1"
          using "1.prems" le d by (subst (asm) dealers_turn.simps) (simp add: dealer_done_def)
        then show ?thesis
          using True le Cons s1
          by - (rule exI [of _ "[c]"], rule exI [of _ rest], auto simp: deal_to_def)
      next
        case False
        then have run: "dealers_turn ?g1 = Inr g'"
          using "1.prems" le d by (subst (asm) dealers_turn.simps) simp
        from "1.IH" [OF le d False run] obtain drawn rest' where
          r: "rest = drawn @ rest'"
          and a: "\<forall>k < length drawn. score (deal_to (add_card c (dealer g)) (take k drawn)) \<le> score (player g)"
          and b: "\<forall>k. 0 < k \<and> k < length drawn \<longrightarrow> score (deal_to (add_card c (dealer g)) (take k drawn)) \<noteq> 21"
          and e: "drawn \<noteq> [] \<and> score (deal_to (add_card c (dealer g)) drawn) = 21
               \<or> score (deal_to (add_card c (dealer g)) drawn) > score (player g)"
          and f: "g' = dealer_done (drawn \<noteq> []) (dealer_drew ?g1 drawn)"
          using s1 by auto
        have step: "deal_to (dealer g) (c # cs) = deal_to (add_card c (dealer g)) cs" for cs
          by (simp add: deal_to_def)
        have a': "\<forall>k < length (c # drawn). score (deal_to (dealer g) (take k (c # drawn))) \<le> score (player g)"
        proof (intro allI impI)
          fix k assume "k < length (c # drawn)"
          then show "score (deal_to (dealer g) (take k (c # drawn))) \<le> score (player g)"
            using a le by (cases k) (simp_all add: step, simp add: deal_to_def)
        qed
        have b': "\<forall>k. 0 < k \<and> k < length (c # drawn) \<longrightarrow> score (deal_to (dealer g) (take k (c # drawn))) \<noteq> 21"
        proof (intro allI impI)
          fix k assume k: "0 < k \<and> k < length (c # drawn)"
          then obtain j where j: "k = Suc j" "j < length drawn"
            by (cases k) auto
          show "score (deal_to (dealer g) (take k (c # drawn))) \<noteq> 21"
          proof (cases j)
            case 0
            then show ?thesis
              using j False s1 by (simp add: step deal_to_def)
          next
            case (Suc i)
            then show ?thesis
              using j b by (simp add: step)
          qed
        qed
        have e': "c # drawn \<noteq> [] \<and> score (deal_to (dealer g) (c # drawn)) = 21
               \<or> score (deal_to (dealer g) (c # drawn)) > score (player g)"
          using e by (auto simp: step)
        have f': "g' = dealer_done (c # drawn \<noteq> []) (dealer_drew g (c # drawn))"
        proof (cases "drawn = []")
          case True
          have "score (dealer ?g1) > score (player g)"
            using e True by (simp add: deal_to_def s1)
          then show ?thesis
            using f True False by (simp add: dealer_drew_Nil dealer_done_def s1)
        next
          case False
          then show ?thesis
            using f dealer_drew_Cons [OF Cons, of drawn] by simp
        qed
        show ?thesis
          using a' b' e' f' r Cons
          by - (rule exI [of _ "c # drawn"], rule exI [of _ rest'], simp)
      qed
    qed
  qed
qed

section \<open>The player's turn\<close>

lemma ask_loop_result:
  "ask_loop st ins out = Inr (c, st', v) \<Longrightarrow>
     st' = st \<and> (c = ''H'' \<or> c = ''S'') \<and> (\<exists>more. output v = out @ Print prompt # more)"
proof (induction ins arbitrary: out)
  case Nil
  then show ?case by simp
next
  case (Cons a ins)
  show ?case
  proof (cases "upper a \<in> set [''H'', ''S'']")
    case True
    then show ?thesis using Cons.prems by auto
  next
    case False
    then have "ask_loop st ins (out @ [Print prompt, Print ''Invalid command!'']) = Inr (c, st', v)"
      using Cons.prems by simp
    from Cons.IH [OF this] show ?thesis by auto
  qed
qed

lemma ask_result:
  assumes "ask g = Inr (cmd, g1)"
  shows "player g1 = player g \<and> dealer g1 = dealer g \<and> deck g1 = deck g
         \<and> (cmd = ''H'' \<or> cmd = ''S'')
         \<and> (\<exists>more. output (view g1) =
               output (view g) @ [Display (dealer g, player g) False, Print prompt] @ more)"
proof -
  obtain d p v where r: "ask_next_move (dealer g, player g) (view g) = Inr (cmd, (d, p), v)"
    and g1: "g1 = g\<lparr>view := v, player := p, dealer := d\<rparr>"
    using assms by (auto simp: ask_def split: sum.splits prod.splits)
  have "ask_loop (dealer g, player g) (inputs (view g))
          (output (view g) @ [Display (dealer g, player g) False]) = Inr (cmd, (d, p), v)"
    using r by (simp add: ask_next_move_def display_state_def)
  from ask_loop_result [OF this] show ?thesis
    using g1 by auto
qed


lemma players_turn_stand:
  assumes "ask g = Inr (''S'', g1)"
  shows "players_turn g = Inr (None, g1)"
  by (subst players_turn.simps) (simp add: assms move_def)

lemma players_turn_ask_fails:
  assumes "ask g = Inl e"
  shows "players_turn g = Inl e"
  by (subst players_turn.simps) (simp add: assms)

lemma move_falls_through:
  assumes "ask g = Inr (cmd, g1)" and "move cmd g1 = Inr (Inr g2)"
  shows "cmd = ''H'' \<and> score (player g2) \<le> 21 \<and> view g2 = view g1"
  using assms ask_result [OF assms(1)]
  by (auto simp: move_def player_draw_def split: if_splits sum.splits prod.splits)

lemma move_returns:
  assumes "move cmd g1 = Inr (Inl (r, g'))"
  shows "r \<noteq> Some False"
  using assms by (auto simp: move_def split: if_splits sum.splits)

lemma players_turn_False:
  assumes "players_turn g = Inr (Some False, g')"
  shows "\<exists>g2. g' = tell_won g2 \<and> score (player g2) = 21"
  using assms
proof (induction g rule: players_turn.induct)
  case (1 g)
  from "1.prems" obtain cmd g1 where a: "ask g = Inr (cmd, g1)"
    by (subst (asm) players_turn.simps) (auto split: sum.splits)
  from "1.prems" a obtain y where m: "move cmd g1 = Inr y"
    by (subst (asm) players_turn.simps) (auto split: sum.splits)
  show ?case
  proof (cases y)
    case (Inl ret)
    then have "ret = (Some False, g')"
      using "1.prems" a m by (subst (asm) players_turn.simps) simp
    then show ?thesis
      using move_returns [of cmd g1 "Some False" g'] m Inl by simp
  next
    case (Inr g2)
    have le: "score (player g2) \<le> 21"
      using move_falls_through [OF a] m Inr by simp
    show ?thesis
    proof (cases "score (player g2) = 21")
      case True
      then have "g' = tell_won g2"
        using "1.prems" a m Inr by (subst (asm) players_turn.simps) simp
      then show ?thesis using True by blast
    next
      case False
      then have "players_turn g2 = Inr (Some False, g')"
        using "1.prems" a m Inr le by (subst (asm) players_turn.simps) simp
      from "1.IH" [OF a refl m Inr False _ this] le show ?thesis by simp
    qed
  qed
qed

section \<open>Dealing and the whole game\<close>

lemma upt_4: "[0..<4] = [0, 1, 2, 3]"
  by (simp add: upt_rec)

lemma remaining_check_shuffle: "remaining (check_shuffle d) = remaining d"
  by (simp add: check_shuffle_def shuffle_def)

lemma deal_loop_4:
  assumes "remaining (deck g) = c1 # c2 # c3 # c4 # rest"
  shows "deal_loop [0..<4] g =
           Inr (g\<lparr>deck := (deck g)\<lparr>remaining := rest\<rparr>,
                  player := add_card c3 (add_card c1 (player g)),
                  dealer := add_card c4 (add_card c2 (dealer g))\<rparr>)"
  using assms by (simp add: upt_4 player_draw_def dealer_draw_def draw_def)

lemma draw_first_cards_init:
  assumes "remaining d = c1 # c2 # c3 # c4 # rest"
  shows "draw_first_cards \<lparr>deck = check_shuffle d, view = v, player = Hand_init, dealer = Hand_init\<rparr>
         = Inr (score (player (dealt d v c1 c2 c3 c4 rest)), dealt d v c1 c2 c3 c4 rest)"
  using assms
  by (simp add: draw_first_cards_def deal_loop_4 remaining_check_shuffle dealt_def)

lemma deal_loop_short:
  assumes "length (remaining (deck g)) < 4"
  shows "deal_loop [0..<4] g = Inl SourceUnavailable"
proof -
  obtain xs where xs: "remaining (deck g) = xs" by simp
  then have "length xs < 4" using assms by simp
  then consider "xs = []" | a where "xs = [a]" | a b where "xs = [a, b]" | a b c where "xs = [a, b, c]"
    by (cases xs rule: list.exhaust; simp; rename_tac ys; case_tac ys; simp; rename_tac zs; case_tac zs; simp)
  then show ?thesis
    using xs by cases (simp_all add: upt_4 player_draw_def dealer_draw_def draw_def)
qed

lemma players_turn_keeps:
  assumes "players_turn g = Inr (r, g')"
  shows "dealer g' = dealer g \<and> is_shuffled (deck g') = is_shuffled (deck g)"
  using assms
proof (induction g rule: players_turn.induct)
  case (1 g)
  from "1.prems" obtain cmd g1 y where a: "ask g = Inr (cmd, g1)" and m: "move cmd g1 = Inr y"
    by (subst (asm) players_turn.simps) (auto split: sum.splits)
  have k1: "dealer g1 = dealer g" "deck g1 = deck g"
    using ask_result [OF a] by simp_all
  show ?case
  proof (cases y)
    case (Inl ret)
    then have "ret = (r, g')"
      using "1.prems" a m by (subst (asm) players_turn.simps) simp
    then have "dealer g' = dealer g1 \<and> is_shuffled (deck g') = is_shuffled (deck g1)"
      using m Inl
      by (auto simp: move_def player_draw_def draw_def tell_lost_eq
          split: if_splits sum.splits prod.splits list.splits)
    then show ?thesis using k1 by simp
  next
    case (Inr g2)
    have k2: "dealer g2 = dealer g1 \<and> is_shuffled (deck g2) = is_shuffled (deck g1)"
      using m Inr
      by (auto simp: move_def player_draw_def draw_def
          split: if_splits sum.splits prod.splits list.splits)
    have le: "score (player g2) \<le> 21"
      using move_falls_through [OF a] m Inr by simp
    show ?thesis
    proof (cases "score (player g2) = 21")
      case True
      then have "g' = tell_won g2"
        using "1.prems" a m Inr by (subst (asm) players_turn.simps) simp
      then show ?thesis using k1 k2 by (simp add: tell_won_eq)
    next
      case False
      then have "players_turn g2 = Inr (r, g')"
        using "1.prems" a m Inr le by (subst (asm) players_turn.simps) simp
      from "1.IH" [OF a refl m Inr False _ this] le k1 k2 show ?thesis by simp
    qed
  qed
qed

lemma init_dealt:
  assumes "remaining d = c1 # c2 # c3 # c4 # rest"
  shows "BlackjackController_init d v =
          (if score (player (dealt d v c1 c2 c3 c4 rest)) = 21
           then Inr (tell_won (dealt d v c1 c2 c3 c4 rest))
           else (case players_turn (dealt d v c1 c2 c3 c4 rest) of
                   Inl e \<Rightarrow> Inl e
                 | Inr (lost, g') \<Rightarrow>
                     if lost = None
                     then (if score (dealer g') = 21 then Inr (tell_lost g')
                           else dealers_turn g')
                     else Inr g'))"
  by (simp add: BlackjackController_init_def draw_first_cards_init [OF assms])

text \<open>
  Claim C7. If after dealing the player does not hold 21, the player's turn ends with a
  Stand (\<open>players_turn\<close> returns \<^verbatim>\<open>None\<close>) and the dealer's two cards score 21, then the
  game ends with the loss reported, the dealer still holding those two cards and the
  deck as the player's turn left it.
\<close>

theorem stand_dealer_21:
  assumes "remaining d = c1 # c2 # c3 # c4 # rest"
    and "score (player (dealt d v c1 c2 c3 c4 rest)) \<noteq> 21"
    and "players_turn (dealt d v c1 c2 c3 c4 rest) = Inr (None, g')"
    and "score (dealer (dealt d v c1 c2 c3 c4 rest)) = 21"
  shows "BlackjackController_init d v = Inr (tell_lost g')
         \<and> cards (dealer (tell_lost g')) = [c2, c4]
         \<and> deck (tell_lost g') = deck g'
         \<and> output (view (tell_lost g')) =
             output (view g') @ [Display (dealer g', player g') True, Print ''You lost'']"
proof -
  have k: "dealer g' = dealer (dealt d v c1 c2 c3 c4 rest)"
    using players_turn_keeps [OF assms(3)] by simp
  then have "score (dealer g') = 21"
    using assms(4) by simp
  then have 1: "BlackjackController_init d v = Inr (tell_lost g')"
    using assms by (simp add: init_dealt [OF assms(1)])
  have 2: "cards (dealer (tell_lost g')) = [c2, c4]"
    using k by (simp add: tell_lost_eq dealt_def cards_add_card Hand_init_def)
  show ?thesis
    using 1 2 by (simp add: tell_lost_eq)
qed

theorem stand_dealer_21_witness:
  "remaining (deck_of [''10'', ''10'', ''5'', ''ACE'', ''2''])
     = spade ''10'' # spade ''10'' # spade ''5'' # spade ''ACE'' # [spade ''2'']
   \<and> score (player (dealt (deck_of [''10'', ''10'', ''5'', ''ACE'', ''2'']) (typing [''S''])
               (spade ''10'') (spade ''10'') (spade ''5'') (spade ''ACE'') [spade ''2''])) \<noteq> 21
   \<and> players_turn (dealt (deck_of [''10'', ''10'', ''5'', ''ACE'', ''2'']) (typing [''S''])
               (spade ''10'') (spade ''10'') (spade ''5'') (spade ''ACE'') [spade ''2''])
     = Inr (None, asked (dealt (deck_of [''10'', ''10'', ''5'', ''ACE'', ''2'']) (typing [''S''])
               (spade ''10'') (spade ''10'') (spade ''5'') (spade ''ACE'') [spade ''2'']) [] [])
   \<and> score (dealer (dealt (deck_of [''10'', ''10'', ''5'', ''ACE'', ''2'']) (typing [''S''])
               (spade ''10'') (spade ''10'') (spade ''5'') (spade ''ACE'') [spade ''2''])) = 21
   \<and> BlackjackController_init (deck_of [''10'', ''10'', ''5'', ''ACE'', ''2'']) (typing [''S''])
     = Inr (tell_lost (asked (dealt (deck_of [''10'', ''10'', ''5'', ''ACE'', ''2'']) (typing [''S''])
               (spade ''10'') (spade ''10'') (spade ''5'') (spade ''ACE'') [spade ''2'']) [] []))
   \<and> cards (dealer (tell_lost (asked (dealt (deck_of [''10'', ''10'', ''5'', ''ACE'', ''2''])
               (typing [''S''])
               (spade ''10'') (spade ''10'') (spade ''5'') (spade ''ACE'') [spade ''2'']) [] [])))
     = [spade ''10'', spade ''ACE'']"
proof -
  have r: "remaining (deck_of [''10'', ''10'', ''5'', ''ACE'', ''2''])
     = spade ''10'' # spade ''10'' # spade ''5'' # spade ''ACE'' # [spade ''2'']"
    by (simp add: deck_of_def)
  have s: "score (player (dealt (deck_of [''10'', ''10'', ''5'', ''ACE'', ''2'']) (typing [''S''])
               (spade ''10'') (spade ''10'') (spade ''5'') (spade ''ACE'') [spade ''2''])) \<noteq> 21"
    by code_simp
  have p: "players_turn (dealt (deck_of [''10'', ''10'', ''5'', ''ACE'', ''2'']) (typing [''S''])
               (spade ''10'') (spade ''10'') (spade ''5'') (spade ''ACE'') [spade ''2''])
     = Inr (None, asked (dealt (deck_of [''10'', ''10'', ''5'', ''ACE'', ''2'']) (typing [''S''])
               (spade ''10'') (spade ''10'') (spade ''5'') (spade ''ACE'') [spade ''2'']) [] [])"
    by code_simp
  have t: "score (dealer (dealt (deck_of [''10'', ''10'', ''5'', ''ACE'', ''2'']) (typing [''S''])
               (spade ''10'') (spade ''10'') (spade ''5'') (spade ''ACE'') [spade ''2''])) = 21"
    by code_simp
  show ?thesis
    using stand_dealer_21 [OF r s p t] r s p t by simp
qed

section \<open>Stored scores are fresh\<close>

lemma fresh_add_card: "fresh (add_card c h)"
  by (simp add: fresh_def score_add_card cards_add_card)

lemma fresh_Hand_init: "fresh Hand_init"
  by (simp add: fresh_def Hand_init_def rule_score_def base_def aceCount_def greedy_aces_def)

lemma all_fresh_tell_lost: "all_fresh g \<Longrightarrow> all_fresh (tell_lost g)"
  by (simp add: all_fresh_def tell_lost_eq)

lemma all_fresh_tell_won: "all_fresh g \<Longrightarrow> all_fresh (tell_won g)"
  by (simp add: all_fresh_def tell_won_eq)

lemma all_fresh_player_draw: "all_fresh g \<Longrightarrow> player_draw g = Inr g' \<Longrightarrow> all_fresh g'"
  by (auto simp: all_fresh_def player_draw_def fresh_add_card split: sum.splits prod.splits)

lemma all_fresh_dealer_draw: "all_fresh g \<Longrightarrow> dealer_draw g = Inr g' \<Longrightarrow> all_fresh g'"
  by (auto simp: all_fresh_def dealer_draw_def fresh_add_card split: sum.splits prod.splits)

lemma ask_loop_fresh:
  "ask_loop st ins out = Inr (c, st', v) \<Longrightarrow> list_all shown_fresh out \<Longrightarrow>
     list_all shown_fresh (output v)"
proof (induction ins arbitrary: out)
  case Nil
  then show ?case by simp
next
  case (Cons a ins)
  show ?case
  proof (cases "upper a \<in> set [''H'', ''S'']")
    case True
    then show ?thesis using Cons.prems by auto
  next
    case False
    then have "ask_loop st ins (out @ [Print prompt, Print ''Invalid command!'']) = Inr (c, st', v)"
      using Cons.prems by simp
    from Cons.IH [OF this] Cons.prems(2) show ?thesis by simp
  qed
qed

lemma all_fresh_ask:
  assumes "all_fresh g" and "ask g = Inr (cmd, g1)"
  shows "all_fresh g1"
proof -
  obtain d p v where r: "ask_next_move (dealer g, player g) (view g) = Inr (cmd, (d, p), v)"
    and g1: "g1 = g\<lparr>view := v, player := p, dealer := d\<rparr>"
    using assms(2) by (auto simp: ask_def split: sum.splits prod.splits)
  have l: "ask_loop (dealer g, player g) (inputs (view g))
          (output (view g) @ [Display (dealer g, player g) False]) = Inr (cmd, (d, p), v)"
    using r by (simp add: ask_next_move_def display_state_def)
  have "list_all shown_fresh (output v)"
    using ask_loop_fresh [OF l] assms(1) by (simp add: all_fresh_def)
  then show ?thesis
    using ask_loop_result [OF l] g1 assms(1) by (simp add: all_fresh_def)
qed

lemma all_fresh_move:
  assumes "all_fresh g" and "move cmd g = Inr y"
  shows "case y of Inl (r, g') \<Rightarrow> all_fresh g' | Inr g' \<Rightarrow> all_fresh g'"
  using assms all_fresh_player_draw [OF assms(1)]
  by (auto simp: move_def all_fresh_tell_lost split: if_splits sum.splits)

lemma all_fresh_players_turn:
  assumes "players_turn g = Inr (r, g')" and "all_fresh g"
  shows "all_fresh g'"
  using assms
proof (induction g rule: players_turn.induct)
  case (1 g)
  from "1.prems" obtain cmd g1 y where a: "ask g = Inr (cmd, g1)" and m: "move cmd g1 = Inr y"
    by (subst (asm) players_turn.simps) (auto split: sum.splits)
  have f1: "all_fresh g1"
    using all_fresh_ask [OF "1.prems"(2) a] .
  show ?case
  proof (cases y)
    case (Inl ret)
    then have "ret = (r, g')"
      using "1.prems" a m by (subst (asm) players_turn.simps) simp
    then show ?thesis
      using all_fresh_move [OF f1 m] Inl by simp
  next
    case (Inr g2)
    have f2: "all_fresh g2"
      using all_fresh_move [OF f1 m] Inr by simp
    have le: "score (player g2) \<le> 21"
      using move_falls_through [OF a] m Inr by simp
    show ?thesis
    proof (cases "score (player g2) = 21")
      case True
      then have "g' = tell_won g2"
        using "1.prems" a m Inr by (subst (asm) players_turn.simps) simp
      then show ?thesis using f2 by (simp add: all_fresh_tell_won)
    next
      case False
      then have "players_turn g2 = Inr (r, g')"
        using "1.prems" a m Inr le by (subst (asm) players_turn.simps) simp
      from "1.IH" [OF a refl m Inr False _ this f2] le show ?thesis by simp
    qed
  qed
qed

lemma all_fresh_dealers_turn:
  assumes "dealers_turn g = Inr g'" and "all_fresh g"
  shows "all_fresh g'"
  using assms
proof (induction g rule: dealers_turn.induct)
  case (1 g)
  show ?case
  proof (cases "score (dealer g) \<le> score (player g)")
    case False
    then have "g' = (if score (dealer g) < 21 then tell_lost g
                     else if score (dealer g) > 22 then tell_won g else g)"
      using "1.prems"(1) by (subst (asm) dealers_turn.simps) (simp split: if_splits)
    then show ?thesis
      using "1.prems"(2) by (simp add: all_fresh_tell_lost all_fresh_tell_won)
  next
    case le: True
    then obtain g1 where d: "dealer_draw g = Inr g1"
      using "1.prems"(1) by (subst (asm) dealers_turn.simps) (auto split: sum.splits)
    have f1: "all_fresh g1"
      using all_fresh_dealer_draw [OF "1.prems"(2) d] .
    show ?thesis
    proof (cases "score (dealer g1) = 21")
      case True
      then have "g' = tell_lost g1"
        using "1.prems"(1) le d by (subst (asm) dealers_turn.simps) simp
      then show ?thesis using f1 by (simp add: all_fresh_tell_lost)
    next
      case False
      then have "dealers_turn g1 = Inr g'"
        using "1.prems"(1) le d by (subst (asm) dealers_turn.simps) simp
      from "1.IH" [OF le d False this f1] show ?thesis .
    qed
  qed
qed

lemma all_fresh_deal_loop:
  "deal_loop is g = Inr g' \<Longrightarrow> all_fresh g \<Longrightarrow> all_fresh g'"
proof (induction "is" arbitrary: g)
  case Nil
  then show ?case by simp
next
  case (Cons i "is")
  then show ?case
    by (auto split: sum.splits if_splits dest: all_fresh_player_draw all_fresh_dealer_draw)
qed

lemma draw_first_cards_Inr:
  assumes "draw_first_cards g = Inr (sc, g1)"
  shows "deal_loop [0..<4] g = Inr g1 \<and> sc = score (player g1)"
proof (cases "deal_loop [0..<4] g")
  case (Inl e)
  then show ?thesis using assms unfolding draw_first_cards_def by simp
next
  case (Inr g')
  then show ?thesis using assms unfolding draw_first_cards_def by auto
qed

lemma all_fresh_init:
  assumes "BlackjackController_init d v = Inr g" and "list_all shown_fresh (output v)"
  shows "all_fresh g"
proof -
  let ?g0 = "\<lparr>deck = check_shuffle d, view = v, player = Hand_init, dealer = Hand_init\<rparr>"
  have f0: "all_fresh ?g0"
    using assms(2) by (simp add: all_fresh_def fresh_Hand_init)
  obtain sc g1 where dfc: "draw_first_cards ?g0 = Inr (sc, g1)"
  proof (cases "draw_first_cards ?g0")
    case (Inl e)
    then show ?thesis using assms(1) unfolding BlackjackController_init_def by simp
  next
    case (Inr r)
    then show ?thesis using that by (cases r) simp
  qed
  have f1: "all_fresh g1"
    using draw_first_cards_Inr [OF dfc] all_fresh_deal_loop [OF _ f0] by blast
  show ?thesis
  proof (cases "sc = 21")
    case True
    then have "g = tell_won g1"
      using assms(1) dfc by (simp add: BlackjackController_init_def)
    then show ?thesis
      using f1 by (simp add: all_fresh_tell_won)
  next
    case False
    then obtain lost g2 where pt: "players_turn g1 = Inr (lost, g2)"
      using assms(1) dfc by (auto simp: BlackjackController_init_def split: sum.splits)
    have f2: "all_fresh g2"
      using all_fresh_players_turn [OF pt f1] .
    have run: "(if lost = None
                then (if score (dealer g2) = 21 then Inr (tell_lost g2) else dealers_turn g2)
                else Inr g2) = Inr g"
      using assms(1) dfc pt False by (simp add: BlackjackController_init_def)
    show ?thesis
    proof (cases "lost = None")
      case stood: True
      show ?thesis
      proof (cases "score (dealer g2) = 21")
        case True
        then have "g = tell_lost g2" using run stood by simp
        then show ?thesis using f2 by (simp add: all_fresh_tell_lost)
      next
        case False
        then have "dealers_turn g2 = Inr g" using run stood by simp
        then show ?thesis using f2 by (rule all_fresh_dealers_turn)
      qed
    next
      case False
      then have "g = g2" using run by auto
      then show ?thesis using f2 by simp
    qed
  qed
qed

text \<open>
  Claim C3. \<open>add_card\<close> appends the card and stores the score the rule gives to the
  whole sequence of cards. In a game, the stored scores are never stale: both hands of
  the final state and every hand the view was shown carry the rule's score of their
  cards.
\<close>

theorem add_card_never_stale:
  "cards (add_card c h) = cards h @ [c]
   \<and> score (add_card c h) = rule_score (cards h @ [c])
   \<and> (list_all shown_fresh (output v) \<and> BlackjackController_init d v = Inr g
        \<longrightarrow> fresh (player g) \<and> fresh (dealer g) \<and> list_all shown_fresh (output (view g)))"
proof -
  have "fresh (player g) \<and> fresh (dealer g) \<and> list_all shown_fresh (output (view g))"
    if "list_all shown_fresh (output v)" and "BlackjackController_init d v = Inr g"
    using all_fresh_init [OF that(2) that(1)] unfolding all_fresh_def .
  then show ?thesis
    by (simp add: cards_add_card score_add_card)
qed

theorem add_card_never_stale_witness:
  "list_all shown_fresh (output (typing [''x'', ''s'']))
   \<and> BlackjackController_init (deck_of [''10'', ''10'', ''9'', ''6'', ''5'']) (typing [''x'', ''s''])
     = Inr (tell_lost (dealer_drew
         (asked (dealt (deck_of [''10'', ''10'', ''9'', ''6'', ''5'']) (typing [''x'', ''s''])
                  (spade ''10'') (spade ''10'') (spade ''9'') (spade ''6'') [spade ''5''])
            [''x''] [])
         [spade ''5'']))
   \<and> fresh (player (tell_lost (dealer_drew
         (asked (dealt (deck_of [''10'', ''10'', ''9'', ''6'', ''5'']) (typing [''x'', ''s''])
                  (spade ''10'') (spade ''10'') (spade ''9'') (spade ''6'') [spade ''5''])
            [''x''] [])
         [spade ''5''])))
   \<and> fresh (dealer (tell_lost (dealer_drew
         (asked (dealt (deck_of [''10'', ''10'', ''9'', ''6'', ''5'']) (typing [''x'', ''s''])
                  (spade ''10'') (spade ''10'') (spade ''9'') (spade ''6'') [spade ''5''])
            [''x''] [])
         [spade ''5''])))
   \<and> list_all shown_fresh (output (view (tell_lost (dealer_drew
         (asked (dealt (deck_of [''10'', ''10'', ''9'', ''6'', ''5'']) (typing [''x'', ''s''])
                  (spade ''10'') (spade ''10'') (spade ''9'') (spade ''6'') [spade ''5''])
            [''x''] [])
         [spade ''5'']))))
   \<and> score (dealer (tell_lost (dealer_drew
         (asked (dealt (deck_of [''10'', ''10'', ''9'', ''6'', ''5'']) (typing [''x'', ''s''])
                  (spade ''10'') (spade ''10'') (spade ''9'') (spade ''6'') [spade ''5''])
            [''x''] [])
         [spade ''5'']))) = 21"
proof -
  have o: "list_all shown_fresh (output (typing [''x'', ''s'']))"
    by (simp add: typing_def)
  have i: "BlackjackController_init (deck_of [''10'', ''10'', ''9'', ''6'', ''5'']) (typing [''x'', ''s''])
     = Inr (tell_lost (dealer_drew
         (asked (dealt (deck_of [''10'', ''10'', ''9'', ''6'', ''5'']) (typing [''x'', ''s''])
                  (spade ''10'') (spade ''10'') (spade ''9'') (spade ''6'') [spade ''5''])
            [''x''] [])
         [spade ''5'']))"
    by code_simp
  have s: "score (dealer (tell_lost (dealer_drew
         (asked (dealt (deck_of [''10'', ''10'', ''9'', ''6'', ''5'']) (typing [''x'', ''s''])
                  (spade ''10'') (spade ''10'') (spade ''9'') (spade ''6'') [spade ''5''])
            [''x''] [])
         [spade ''5'']))) = 21"
    by code_simp
  show ?thesis
    using add_card_never_stale
      [of _ _ "typing [''x'', ''s'']" "deck_of [''10'', ''10'', ''9'', ''6'', ''5'']"
        "tell_lost (dealer_drew
         (asked (dealt (deck_of [''10'', ''10'', ''9'', ''6'', ''5'']) (typing [''x'', ''s''])
                  (spade ''10'') (spade ''10'') (spade ''9'') (spade ''6'') [spade ''5''])
            [''x''] [])
         [spade ''5''])"]
      o i s
    by simp
qed

section \<open>The turns of the game\<close>

text \<open>
  Claim C9. Whenever the input still holds an entry that is "H" or "S" up to case,
  \<open>ask_next_move\<close> returns the upper-case form of the first such entry: the entries
  before it are refused, each with a prompt and the line "Invalid command!", the input is
  read up to that entry, and the two hands come back as they were passed. The long s
  counts as an S, as it does for \<^verbatim>\<open>str.upper\<close>.
\<close>

theorem ask_next_move_reprompts:
  assumes "\<exists>a \<in> set (inputs v). valid_move a"
  shows "\<exists>bad a rest. inputs v = bad @ a # rest \<and> (\<forall>b \<in> set bad. \<not> valid_move b) \<and> valid_move a
           \<and> upper a \<in> set [''H'', ''S'']
           \<and> ask_next_move st v =
               Inr (upper a, st,
                    \<lparr>inputs = rest,
                     output = output v @ [Display st False] @ reprompts bad @ [Print prompt]\<rparr>)"
proof -
  from split_list_first_prop [OF assms] obtain bad a rest where
    d: "inputs v = bad @ a # rest" and a: "valid_move a" and b: "\<forall>b \<in> set bad. \<not> valid_move b"
    by blast
  from ask_next_move_first_valid [OF d b a, of st] d a b show ?thesis
    by blast
qed

theorem ask_next_move_reprompts_witness:
  "(\<exists>a \<in> set (inputs (typing [''X'', ''hit'', ''s'', ''H''])). valid_move a)
   \<and> (\<exists>bad a rest. inputs (typing [''X'', ''hit'', ''s'', ''H'']) = bad @ a # rest
         \<and> ask_next_move (hand_of [''10'', ''6''], hand_of [''10'', ''9''])
              (typing [''X'', ''hit'', ''s'', ''H''])
            = Inr (upper a, (hand_of [''10'', ''6''], hand_of [''10'', ''9'']),
                   \<lparr>inputs = rest,
                    output = output (typing [''X'', ''hit'', ''s'', ''H''])
                             @ [Display (hand_of [''10'', ''6''], hand_of [''10'', ''9'']) False]
                             @ reprompts bad @ [Print prompt]\<rparr>))
   \<and> ask_next_move (hand_of [''10'', ''6''], hand_of [''10'', ''9''])
        (typing [''X'', ''hit'', ''s'', ''H''])
      = Inr (''S'', (hand_of [''10'', ''6''], hand_of [''10'', ''9'']),
             \<lparr>inputs = [''H''],
              output = [Display (hand_of [''10'', ''6''], hand_of [''10'', ''9'']) False,
                        Print prompt, Print ''Invalid command!'',
                        Print prompt, Print ''Invalid command!'', Print prompt]\<rparr>)
   \<and> valid_move long_s
   \<and> ask_next_move (hand_of [''10'', ''6''], hand_of [''10'', ''9'']) (typing [long_s, ''H''])
      = Inr (''S'', (hand_of [''10'', ''6''], hand_of [''10'', ''9'']),
             \<lparr>inputs = [''H''],
              output = [Display (hand_of [''10'', ''6''], hand_of [''10'', ''9'']) False,
                        Print prompt]\<rparr>)"
proof -
  have h: "\<exists>a \<in> set (inputs (typing [''X'', ''hit'', ''s'', ''H''])). valid_move a"
    by (simp add: typing_def valid_move_def)
  have e: "ask_next_move (hand_of [''10'', ''6''], hand_of [''10'', ''9''])
        (typing [''X'', ''hit'', ''s'', ''H''])
      = Inr (''S'', (hand_of [''10'', ''6''], hand_of [''10'', ''9'']),
             \<lparr>inputs = [''H''],
              output = [Display (hand_of [''10'', ''6''], hand_of [''10'', ''9'']) False,
                        Print prompt, Print ''Invalid command!'',
                        Print prompt, Print ''Invalid command!'', Print prompt]\<rparr>)"
    by code_simp
  from ask_next_move_reprompts [OF h, of "(hand_of [''10'', ''6''], hand_of [''10'', ''9''])"]
  have "\<exists>bad a rest. inputs (typing [''X'', ''hit'', ''s'', ''H'']) = bad @ a # rest
         \<and> ask_next_move (hand_of [''10'', ''6''], hand_of [''10'', ''9''])
              (typing [''X'', ''hit'', ''s'', ''H''])
            = Inr (upper a, (hand_of [''10'', ''6''], hand_of [''10'', ''9'']),
                   \<lparr>inputs = rest,
                    output = output (typing [''X'', ''hit'', ''s'', ''H''])
                             @ [Display (hand_of [''10'', ''6''], hand_of [''10'', ''9'']) False]
                             @ reprompts bad @ [Print prompt]\<rparr>)"
    by blast
  moreover have "valid_move long_s"
    by (simp add: valid_move_def)
  moreover have "ask_next_move (hand_of [''10'', ''6''], hand_of [''10'', ''9''])
        (typing [long_s, ''H''])
      = Inr (''S'', (hand_of [''10'', ''6''], hand_of [''10'', ''9'']),
             \<lparr>inputs = [''H''],
              output = [Display (hand_of [''10'', ''6''], hand_of [''10'', ''9'']) False,
                        Print prompt]\<rparr>)"
    by code_simp
  ultimately show ?thesis
    using h e by blast
qed













text \<open>
  Claim C8. The check \<^verbatim>\<open>self.player.score > 22\<close> of \<open>players_turn\<close> is reached only
  after a Hit that left the score at 21 or less, so it never holds; and whenever
  \<open>players_turn\<close> returns \<^verbatim>\<open>False\<close>, it does so from the branch of the score 21, after
  telling the player the win.
\<close>

theorem over_22_check_never_fires:
  "(ask g = Inr (cmd, g1) \<and> move cmd g1 = Inr (Inr g2)
      \<longrightarrow> cmd = ''H'' \<and> score (player g2) \<le> 21 \<and> \<not> score (player g2) > 22)
   \<and> (players_turn g = Inr (Some False, g')
      \<longrightarrow> (\<exists>g2. g' = tell_won g2 \<and> score (player g2) = 21))"
proof -
  have 1: "cmd = ''H'' \<and> score (player g2) \<le> 21 \<and> \<not> score (player g2) > 22"
    if "ask g = Inr (cmd, g1)" and "move cmd g1 = Inr (Inr g2)"
    using move_falls_through [OF that] by simp
  have 2: "\<exists>g2. g' = tell_won g2 \<and> score (player g2) = 21"
    if "players_turn g = Inr (Some False, g')"
    using players_turn_False [OF that] .
  show ?thesis
    using 1 2 by blast
qed

theorem over_22_check_never_fires_witness:
  "ask (table [''10'', ''5''] [''10'', ''6''] [''2'', ''4''] [''h'', ''H''])
     = Inr (''H'', asked (table [''10'', ''5''] [''10'', ''6''] [''2'', ''4''] [''h'', ''H'']) [] [''H''])
   \<and> move ''H'' (asked (table [''10'', ''5''] [''10'', ''6''] [''2'', ''4''] [''h'', ''H'']) [] [''H''])
     = Inr (Inr (player_drew
         (asked (table [''10'', ''5''] [''10'', ''6''] [''2'', ''4''] [''h'', ''H'']) [] [''H''])
         [spade ''2'']))
   \<and> score (player (player_drew
         (asked (table [''10'', ''5''] [''10'', ''6''] [''2'', ''4''] [''h'', ''H'']) [] [''H''])
         [spade ''2''])) \<le> 21
   \<and> players_turn (table [''10'', ''5''] [''10'', ''6''] [''2'', ''4''] [''h'', ''H''])
     = Inr (Some False,
            tell_won (player_drew
              (asked (player_drew
                 (asked (table [''10'', ''5''] [''10'', ''6''] [''2'', ''4''] [''h'', ''H'']) [] [''H''])
                 [spade ''2'']) [] [])
              [spade ''4'']))
   \<and> (\<exists>g2. tell_won (player_drew
              (asked (player_drew
                 (asked (table [''10'', ''5''] [''10'', ''6''] [''2'', ''4''] [''h'', ''H'']) [] [''H''])
                 [spade ''2'']) [] [])
              [spade ''4'']) = tell_won g2 \<and> score (player g2) = 21)"
proof -
  have a: "ask (table [''10'', ''5''] [''10'', ''6''] [''2'', ''4''] [''h'', ''H''])
     = Inr (''H'', asked (table [''10'', ''5''] [''10'', ''6''] [''2'', ''4''] [''h'', ''H'']) [] [''H''])"
    by code_simp
  have m: "move ''H'' (asked (table [''10'', ''5''] [''10'', ''6''] [''2'', ''4''] [''h'', ''H'']) [] [''H''])
     = Inr (Inr (player_drew
         (asked (table [''10'', ''5''] [''10'', ''6''] [''2'', ''4''] [''h'', ''H'']) [] [''H''])
         [spade ''2'']))"
    by code_simp
  have p: "players_turn (table [''10'', ''5''] [''10'', ''6''] [''2'', ''4''] [''h'', ''H''])
     = Inr (Some False,
            tell_won (player_drew
              (asked (player_drew
                 (asked (table [''10'', ''5''] [''10'', ''6''] [''2'', ''4''] [''h'', ''H'']) [] [''H''])
                 [spade ''2'']) [] [])
              [spade ''4'']))"
    by code_simp
  show ?thesis
    using over_22_check_never_fires
      [of "table [''10'', ''5''] [''10'', ''6''] [''2'', ''4''] [''h'', ''H'']" "''H''"
        "asked (table [''10'', ''5''] [''10'', ''6''] [''2'', ''4''] [''h'', ''H'']) [] [''H'']"
        "player_drew
         (asked (table [''10'', ''5''] [''10'', ''6''] [''2'', ''4''] [''h'', ''H'']) [] [''H''])
         [spade ''2'']"
        "tell_won (player_drew
              (asked (player_drew
                 (asked (table [''10'', ''5''] [''10'', ''6''] [''2'', ''4''] [''h'', ''H'']) [] [''H''])
                 [spade ''2'']) [] [])
              [spade ''4''])"]
      a m p
    by simp
qed

text \<open>
  Claim C6. From a deck that holds at least four cards the game deals exactly four: the
  first and third to the player, the second and fourth to the dealer. If the player's
  score is then 21 the game ends at once with the win reported, no further card drawn and
  no line of input read; otherwise it goes on with the player's turn.
\<close>

theorem deals_four_cards:
  assumes "remaining d = c1 # c2 # c3 # c4 # rest"
  shows "draw_first_cards
           \<lparr>deck = check_shuffle d, view = v, player = Hand_init, dealer = Hand_init\<rparr>
         = Inr (score (player (dealt d v c1 c2 c3 c4 rest)), dealt d v c1 c2 c3 c4 rest)
       \<and> cards (player (dealt d v c1 c2 c3 c4 rest)) = [c1, c3]
       \<and> cards (dealer (dealt d v c1 c2 c3 c4 rest)) = [c2, c4]
       \<and> remaining (deck (dealt d v c1 c2 c3 c4 rest)) = rest
       \<and> view (dealt d v c1 c2 c3 c4 rest) = v
       \<and> (score (player (dealt d v c1 c2 c3 c4 rest)) = 21
            \<longrightarrow> BlackjackController_init d v = Inr (tell_won (dealt d v c1 c2 c3 c4 rest))
              \<and> remaining (deck (tell_won (dealt d v c1 c2 c3 c4 rest))) = rest
              \<and> inputs (view (tell_won (dealt d v c1 c2 c3 c4 rest))) = inputs v
              \<and> output (view (tell_won (dealt d v c1 c2 c3 c4 rest)))
                  = output v @ [Display (dealer (dealt d v c1 c2 c3 c4 rest),
                                         player (dealt d v c1 c2 c3 c4 rest)) True,
                                Print ''You won''])
       \<and> (score (player (dealt d v c1 c2 c3 c4 rest)) \<noteq> 21
            \<longrightarrow> BlackjackController_init d v =
                  (case players_turn (dealt d v c1 c2 c3 c4 rest) of
                     Inl e \<Rightarrow> Inl e
                   | Inr (lost, g') \<Rightarrow>
                       if lost = None
                       then (if score (dealer g') = 21 then Inr (tell_lost g')
                             else dealers_turn g')
                       else Inr g'))"
proof -
  have 1: "cards (player (dealt d v c1 c2 c3 c4 rest)) = [c1, c3]"
    "cards (dealer (dealt d v c1 c2 c3 c4 rest)) = [c2, c4]"
    "remaining (deck (dealt d v c1 c2 c3 c4 rest)) = rest"
    "view (dealt d v c1 c2 c3 c4 rest) = v"
    by (simp_all add: dealt_def cards_add_card Hand_init_def)
  show ?thesis
    using draw_first_cards_init [OF assms, of v] init_dealt [OF assms, of v] 1
    by (simp add: tell_won_eq)
qed

theorem deals_four_cards_witness:
  "remaining (deck_of [''ACE'', ''10'', ''KING'', ''6'', ''5''])
     = spade ''ACE'' # spade ''10'' # spade ''KING'' # spade ''6'' # [spade ''5'']
   \<and> score (player (dealt (deck_of [''ACE'', ''10'', ''KING'', ''6'', ''5'']) (typing [''h''])
               (spade ''ACE'') (spade ''10'') (spade ''KING'') (spade ''6'') [spade ''5''])) = 21
   \<and> BlackjackController_init (deck_of [''ACE'', ''10'', ''KING'', ''6'', ''5'']) (typing [''h''])
     = Inr (tell_won (dealt (deck_of [''ACE'', ''10'', ''KING'', ''6'', ''5'']) (typing [''h''])
               (spade ''ACE'') (spade ''10'') (spade ''KING'') (spade ''6'') [spade ''5'']))
   \<and> remaining (deck (tell_won (dealt (deck_of [''ACE'', ''10'', ''KING'', ''6'', ''5''])
               (typing [''h''])
               (spade ''ACE'') (spade ''10'') (spade ''KING'') (spade ''6'') [spade ''5''])))
     = [spade ''5'']
   \<and> inputs (view (tell_won (dealt (deck_of [''ACE'', ''10'', ''KING'', ''6'', ''5''])
               (typing [''h''])
               (spade ''ACE'') (spade ''10'') (spade ''KING'') (spade ''6'') [spade ''5''])))
     = [''h'']"
proof -
  have r: "remaining (deck_of [''ACE'', ''10'', ''KING'', ''6'', ''5''])
     = spade ''ACE'' # spade ''10'' # spade ''KING'' # spade ''6'' # [spade ''5'']"
    by (simp add: deck_of_def)
  have s: "score (player (dealt (deck_of [''ACE'', ''10'', ''KING'', ''6'', ''5'']) (typing [''h''])
               (spade ''ACE'') (spade ''10'') (spade ''KING'') (spade ''6'') [spade ''5''])) = 21"
    by code_simp
  show ?thesis
    using deals_four_cards [OF r, of "typing [''h'']"] r s
    by (simp add: typing_def)
qed

section \<open>How many outcomes a game reports\<close>

text \<open>
  A game that returns has reported at most one outcome, and it has reported none only
  with the dealer's score at 22.
\<close>

lemma reports_tell_lost: "reports (view (tell_lost g)) = reports (view g) @ [Print ''You lost'']"
  by (simp add: reports_def tell_lost_eq)

lemma reports_tell_won: "reports (view (tell_won g)) = reports (view g) @ [Print ''You won'']"
  by (simp add: reports_def tell_won_eq)

lemma ask_loop_reports:
  "ask_loop st ins out = Inr (c, st', v) \<Longrightarrow>
     reports v = filter (\<lambda>e. e = Print ''You won'' \<or> e = Print ''You lost'') out"
proof (induction ins arbitrary: out)
  case Nil
  then show ?case by simp
next
  case (Cons a ins)
  show ?case
  proof (cases "upper a \<in> set [''H'', ''S'']")
    case True
    then show ?thesis using Cons.prems by (auto simp: reports_def prompt_def)
  next
    case False
    then have "ask_loop st ins (out @ [Print prompt, Print ''Invalid command!'']) = Inr (c, st', v)"
      using Cons.prems by simp
    from Cons.IH [OF this] show ?thesis by (simp add: prompt_def)
  qed
qed

lemma reports_ask:
  assumes "ask g = Inr (cmd, g1)"
  shows "reports (view g1) = reports (view g)"
proof -
  obtain d p v where r: "ask_next_move (dealer g, player g) (view g) = Inr (cmd, (d, p), v)"
    and g1: "g1 = g\<lparr>view := v, player := p, dealer := d\<rparr>"
    using assms by (auto simp: ask_def split: sum.splits prod.splits)
  have "ask_loop (dealer g, player g) (inputs (view g))
          (output (view g) @ [Display (dealer g, player g) False]) = Inr (cmd, (d, p), v)"
    using r by (simp add: ask_next_move_def display_state_def)
  from ask_loop_reports [OF this] show ?thesis
    using g1 by (simp add: reports_def)
qed

lemma players_turn_reports:
  assumes "players_turn g = Inr (r, g')"
  shows "(r = None \<longrightarrow> reports (view g') = reports (view g))
         \<and> (r \<noteq> None \<longrightarrow> (\<exists>e. reports (view g') = reports (view g) @ [e]))"
  using assms
proof (induction g rule: players_turn.induct)
  case (1 g)
  from "1.prems" obtain cmd g1 y where a: "ask g = Inr (cmd, g1)" and m: "move cmd g1 = Inr y"
    by (subst (asm) players_turn.simps) (auto split: sum.splits)
  have r1: "reports (view g1) = reports (view g)"
    using reports_ask [OF a] .
  show ?case
  proof (cases y)
    case (Inl ret)
    then have "ret = (r, g')"
      using "1.prems" a m by (subst (asm) players_turn.simps) simp
    then have "(r = None \<longrightarrow> reports (view g') = reports (view g1))
         \<and> (r \<noteq> None \<longrightarrow> (\<exists>e. reports (view g') = reports (view g1) @ [e]))"
      using m Inl
      by (auto simp: move_def reports_tell_lost player_draw_def
          split: if_splits sum.splits prod.splits)
    then show ?thesis using r1 by simp
  next
    case (Inr g2)
    have v2: "view g2 = view g1" and le: "score (player g2) \<le> 21"
      using move_falls_through [OF a] m Inr by simp_all
    show ?thesis
    proof (cases "score (player g2) = 21")
      case True
      then have "g' = tell_won g2 \<and> r = Some False"
        using "1.prems" a m Inr by (subst (asm) players_turn.simps) simp
      then show ?thesis using r1 v2 by (simp add: reports_tell_won)
    next
      case False
      then have "players_turn g2 = Inr (r, g')"
        using "1.prems" a m Inr le by (subst (asm) players_turn.simps) simp
      from "1.IH" [OF a refl m Inr False _ this] le show ?thesis
        using r1 v2 by simp
    qed
  qed
qed

lemma dealers_turn_reports:
  assumes "dealers_turn g = Inr g'" and "score (dealer g) \<noteq> 21"
  shows "\<exists>es. reports (view g') = reports (view g) @ es \<and> length es \<le> 1
              \<and> (es = [] \<longrightarrow> score (dealer g') = 22)"
proof -
  from dealers_turn_trace [OF assms(1)] obtain drawn rest where
    e: "drawn \<noteq> [] \<and> score (deal_to (dealer g) drawn) = 21
               \<or> score (deal_to (dealer g) drawn) > score (player g)"
    and f: "g' = dealer_done (drawn \<noteq> []) (dealer_drew g drawn)"
    by blast
  let ?ge = "dealer_drew g drawn"
  have v: "view ?ge = view g" and d: "dealer ?ge = deal_to (dealer g) drawn"
    by (simp_all add: dealer_drew_def)
  have z: "drawn = [] \<Longrightarrow> score (dealer ?ge) \<noteq> 21"
    using assms(2) by (simp add: dealer_drew_def deal_to_def)
  consider "g' = tell_lost ?ge" | "g' = tell_won ?ge"
    | "g' = ?ge" "score (dealer ?ge) = 22"
    using f z by (cases "drawn = []"; simp add: dealer_done_def split: if_splits; linarith)
  then show ?thesis
  proof cases
    case 1
    then show ?thesis using v by (simp add: reports_tell_lost)
  next
    case 2
    then show ?thesis using v by (simp add: reports_tell_won)
  next
    case 3
    then show ?thesis using v by simp
  qed
qed

lemma outcome_at_most_once:
  assumes "BlackjackController_init d v = Inr g"
  shows "\<exists>es. reports (view g) = reports v @ es \<and> length es \<le> 1
              \<and> (es = [] \<longrightarrow> score (dealer g) = 22)"
proof -
  let ?g0 = "\<lparr>deck = check_shuffle d, view = v, player = Hand_init, dealer = Hand_init\<rparr>"
  obtain sc g1 where dfc: "draw_first_cards ?g0 = Inr (sc, g1)"
  proof (cases "draw_first_cards ?g0")
    case (Inl e)
    then show ?thesis using assms unfolding BlackjackController_init_def by simp
  next
    case (Inr r)
    then show ?thesis using that by (cases r) simp
  qed
  have dl: "deal_loop [0..<4] ?g0 = Inr g1"
    using draw_first_cards_Inr [OF dfc] by simp
  have v1: "view g1 = v"
  proof -
    have "deal_loop is g = Inr g' \<Longrightarrow> view g' = view g" for "is" g g'
    proof (induction "is" arbitrary: g)
      case Nil
      then show ?case by simp
    next
      case (Cons i "is")
      then show ?case
        by (auto simp: player_draw_def dealer_draw_def split: sum.splits if_splits prod.splits)
    qed
    from this [OF dl] show ?thesis by simp
  qed
  show ?thesis
  proof (cases "sc = 21")
    case True
    then have "g = tell_won g1"
      using assms dfc by (simp add: BlackjackController_init_def)
    then show ?thesis using v1 by (simp add: reports_tell_won)
  next
    case False
    obtain lost g2 where pt: "players_turn g1 = Inr (lost, g2)"
    proof (cases "players_turn g1")
      case (Inl e)
      then show ?thesis using assms dfc False unfolding BlackjackController_init_def by simp
    next
      case (Inr r)
      then show ?thesis using that by (cases r) simp
    qed
    have run: "(if lost = None
                then (if score (dealer g2) = 21 then Inr (tell_lost g2) else dealers_turn g2)
                else Inr g2) = Inr g"
      using assms dfc pt False by (simp add: BlackjackController_init_def)
    note pr = players_turn_reports [OF pt]
    show ?thesis
    proof (cases "lost = None")
      case stood: True
      then have r2: "reports (view g2) = reports v"
        using pr v1 by simp
      show ?thesis
      proof (cases "score (dealer g2) = 21")
        case True
        then have "g = tell_lost g2" using run stood by simp
        then show ?thesis using r2 by (simp add: reports_tell_lost)
      next
        case False
        then have "dealers_turn g2 = Inr g" using run stood by simp
        from dealers_turn_reports [OF this False] show ?thesis
          using r2 by simp
      qed
    next
      case False
      then have "g = g2" using run by auto
      then show ?thesis using pr False v1 by auto
    qed
  qed
qed

text \<open>
  Claim C2. The game reports exactly one outcome. The code does not, in this run: the
  player holds 10 and 9 and stands, the dealer holds 10 and 6 and draws a 6. The game
  returns with the dealer at 22, and the view was told neither a win nor a loss.
\<close>

theorem dealer_22_reports_nothing:
  "\<exists>g. BlackjackController_init
          (deck_of [''10'', ''10'', ''9'', ''6'', ''6'', ''KING'', ''2'']) (typing [''S'']) = Inr g
       \<and> score (player g) = 19 \<and> score (dealer g) = 22
       \<and> map value (cards (dealer g)) = [''10'', ''6'', ''6'']
       \<and> inputs (view g) = []
       \<and> reports (view g) = []"
proof -
  have i: "BlackjackController_init
          (deck_of [''10'', ''10'', ''9'', ''6'', ''6'', ''KING'', ''2'']) (typing [''S''])
      = Inr (dealer_drew
         (asked (dealt (deck_of [''10'', ''10'', ''9'', ''6'', ''6'', ''KING'', ''2'']) (typing [''S''])
                  (spade ''10'') (spade ''10'') (spade ''9'') (spade ''6'')
                  [spade ''6'', spade ''KING'', spade ''2''])
            [] [])
         [spade ''6''])"
    by code_simp
  have "score (player (dealer_drew
         (asked (dealt (deck_of [''10'', ''10'', ''9'', ''6'', ''6'', ''KING'', ''2'']) (typing [''S''])
                  (spade ''10'') (spade ''10'') (spade ''9'') (spade ''6'')
                  [spade ''6'', spade ''KING'', spade ''2''])
            [] [])
         [spade ''6''])) = 19"
    and "score (dealer (dealer_drew
         (asked (dealt (deck_of [''10'', ''10'', ''9'', ''6'', ''6'', ''KING'', ''2'']) (typing [''S''])
                  (spade ''10'') (spade ''10'') (spade ''9'') (spade ''6'')
                  [spade ''6'', spade ''KING'', spade ''2''])
            [] [])
         [spade ''6''])) = 22"
    and "map value (cards (dealer (dealer_drew
         (asked (dealt (deck_of [''10'', ''10'', ''9'', ''6'', ''6'', ''KING'', ''2'']) (typing [''S''])
                  (spade ''10'') (spade ''10'') (spade ''9'') (spade ''6'')
                  [spade ''6'', spade ''KING'', spade ''2''])
            [] [])
         [spade ''6'']))) = [''10'', ''6'', ''6'']"
    and "inputs (view (dealer_drew
         (asked (dealt (deck_of [''10'', ''10'', ''9'', ''6'', ''6'', ''KING'', ''2'']) (typing [''S''])
                  (spade ''10'') (spade ''10'') (spade ''9'') (spade ''6'')
                  [spade ''6'', spade ''KING'', spade ''2''])
            [] [])
         [spade ''6''])) = []"
    and "reports (view (dealer_drew
         (asked (dealt (deck_of [''10'', ''10'', ''9'', ''6'', ''6'', ''KING'', ''2'']) (typing [''S''])
                  (spade ''10'') (spade ''10'') (spade ''9'') (spade ''6'')
                  [spade ''6'', spade ''KING'', spade ''2''])
            [] [])
         [spade ''6''])) = []"
    by code_simp+
  then show ?thesis
    using i by simp
qed

end
